theory Spec2Isabelle
  imports Complex_Main "HOL-Library.AList"
begin

section \<open>Master's League backend: schedule store, weekly aggregation, round robin\<close>

text \<open>
  A shallow embedding of \<^verbatim>\<open>app.py\<close>. Python dictionaries are association lists
  updated with \<open>AList.update\<close>: an assignment to an existing key replaces the value in
  place, a new key is appended, which is the insertion order a Python \<^verbatim>\<open>dict\<close>
  keeps. Exceptions are values of \<open>py_error\<close> on the left of a sum.
\<close>

subsection \<open>Errors and Python primitives\<close>

datatype py_error = IndexError | KeyError | JSONDecodeError | ProviderError

text \<open>\<^verbatim>\<open>xs[i]\<close>: a negative index counts from the end, an index out of range raises.\<close>

definition py_index :: "'a list \<Rightarrow> int \<Rightarrow> py_error + 'a" where
  "py_index xs i =
     (if 0 \<le> i \<and> i < int (length xs) then Inr (xs ! nat i)
      else if i < 0 \<and> - int (length xs) \<le> i then Inr (xs ! nat (int (length xs) + i))
      else Inl IndexError)"

text \<open>\<^verbatim>\<open>xs[a:]\<close> and \<^verbatim>\<open>xs[:b]\<close>: a negative bound counts from the end, and bounds
  are clipped to the list.\<close>

definition slice_from :: "'a list \<Rightarrow> int \<Rightarrow> 'a list" where
  "slice_from xs a =
     drop (nat (if a < 0 then max 0 (int (length xs) + a) else a)) xs"

definition slice_to :: "'a list \<Rightarrow> int \<Rightarrow> 'a list" where
  "slice_to xs b =
     take (nat (if b < 0 then max 0 (int (length xs) + b) else b)) xs"

text \<open>\<^verbatim>\<open>str(week)\<close>: the decimal numeral of an integer.\<close>

definition digit_char :: "nat \<Rightarrow> char" where
  "digit_char d = ''0123456789'' ! d"

fun str_nat :: "nat \<Rightarrow> string" where
  "str_nat n = (if n < 10 then [digit_char n] else str_nat (n div 10) @ [digit_char (n mod 10)])"

declare str_nat.simps [simp del]

definition str :: "int \<Rightarrow> string" where
  "str i = (if i < 0 then CHR ''-'' # str_nat (nat (- i)) else str_nat (nat i))"

subsection \<open>Data model\<close>

text \<open>A pair \<^verbatim>\<open>[t1, t2]\<close> is a list, a week's matchups a list of pairs, and a schedule
  a dictionary from \<^verbatim>\<open>str(week)\<close> to the week's matchups.\<close>

type_synonym 'a matchups = "'a list list"
type_synonym 'a schedule = "(string \<times> 'a matchups) list"

text \<open>The schedule invariant on one week: every pair lists two distinct team ids, and no
  team occurs in two pairs of the week.\<close>

definition pair_ok :: "'a list \<Rightarrow> bool" where
  "pair_ok p = (case p of [a, b] \<Rightarrow> a \<noteq> b | _ \<Rightarrow> False)"

definition week_ok :: "'a matchups \<Rightarrow> bool" where
  "week_ok ms = (list_all pair_ok ms \<and> distinct (concat ms))"

definition schedule_ok :: "'a schedule \<Rightarrow> bool" where
  "schedule_ok s = list_all week_ok (map snd s)"

text \<open>One head-to-head box result of the provider: \<^verbatim>\<open>box.home_team.team_id\<close>,
  \<^verbatim>\<open>box.away_team.team_id\<close>, \<^verbatim>\<open>box.home_score\<close>, \<^verbatim>\<open>box.away_score\<close>.\<close>

record box_score =
  home_team_id :: int
  away_team_id :: int
  home_score :: real
  away_score :: real

text \<open>The dictionary \<^verbatim>\<open>get_weekly_data\<close> returns.\<close>

record weekly_result =
  week :: int
  scores :: "(int \<times> real) list"
  espnMatchups :: "int list list"

text \<open>The provider's league object: \<^verbatim>\<open>league.current_week\<close> and
  \<^verbatim>\<open>league.box_scores(week)\<close>, a call that may raise.\<close>

record league =
  current_week :: int
  box_scores :: "int \<Rightarrow> py_error + box_score list"

definition REGULAR_SEASON_WEEKS :: int where
  "REGULAR_SEASON_WEEKS = 13"

subsection \<open>ScheduleStore: \<^verbatim>\<open>load_schedule\<close>\<close>

text \<open>The state of \<^verbatim>\<open>schedule.json\<close> as \<^verbatim>\<open>load_schedule\<close> sees it: the path does not
  exist, or it exists and \<^verbatim>\<open>json.load\<close> on it either raises (\<open>Inl\<close>) or returns the
  decoded schedule (\<open>Inr\<close>).\<close>

datatype file_state = Absent | Present "py_error + int schedule"

definition default_schedule :: "int schedule" where
  "default_schedule =
    [(''1'', [[1,2],[3,4],[5,6],[7,8],[9,10]]),
     (''2'', [[1,3],[2,5],[4,7],[6,9],[8,10]]),
     (''3'', [[1,4],[2,6],[3,8],[5,9],[7,10]]),
     (''4'', [[1,5],[2,7],[3,9],[4,6],[8,10]]),
     (''5'', [[1,6],[2,8],[3,10],[4,5],[7,9]]),
     (''6'', [[1,7],[2,9],[3,5],[4,8],[6,10]]),
     (''7'', [[1,8],[2,10],[3,6],[4,9],[5,7]]),
     (''8'', [[1,9],[2,4],[3,7],[5,10],[6,8]]),
     (''9'', [[1,10],[2,3],[4,10],[5,8],[6,7]]),
     (''10'', [[1,2],[3,4],[5,6],[7,8],[9,10]]),
     (''11'', [[1,3],[2,5],[4,7],[6,9],[8,10]]),
     (''12'', [[1,4],[2,6],[3,8],[5,9],[7,10]]),
     (''13'', [[1,5],[2,7],[3,9],[4,6],[8,10]])]"

definition load_schedule :: "file_state \<Rightarrow> py_error + int schedule" where
  "load_schedule path =
     (case path of
        Present decoded \<Rightarrow> decoded
      | Absent \<Rightarrow> Inr default_schedule)"

text \<open>The route \<^verbatim>\<open>GET /api/schedule\<close> serialises what \<^verbatim>\<open>load_schedule\<close> returns; it has
  no handler of its own, so an exception of \<^verbatim>\<open>load_schedule\<close> leaves the route.\<close>

definition get_schedule :: "file_state \<Rightarrow> py_error + int schedule" where
  "get_schedule path = load_schedule path"

subsection \<open>WeeklyAggregator: \<^verbatim>\<open>get_weekly_data\<close>\<close>

text \<open>The body of \<^verbatim>\<open>for box in league.box_scores(week)\<close>, on the pair of the two
  accumulators \<^verbatim>\<open>scores\<close> and \<^verbatim>\<open>espn_matchups\<close>.\<close>

fun box_loop ::
  "box_score list \<Rightarrow> (int \<times> real) list \<Rightarrow> int list list \<Rightarrow> (int \<times> real) list \<times> int list list"
where
  "box_loop [] scores' espn_matchups = (scores', espn_matchups)"
| "box_loop (box # boxes) scores' espn_matchups =
     (let home_id = home_team_id box;
          away_id = away_team_id box;
          scores' = AList.update home_id (home_score box) scores';
          scores' = AList.update away_id (away_score box) scores'
      in box_loop boxes scores' (espn_matchups @ [[home_id, away_id]]))"

definition get_weekly_data :: "league \<Rightarrow> int \<Rightarrow> py_error + weekly_result" where
  "get_weekly_data lg wk =
     (case box_scores lg wk of
        Inl e \<Rightarrow> Inl e
      | Inr boxes \<Rightarrow>
          (case box_loop boxes [] [] of
             (scores', espn_matchups) \<Rightarrow>
               Inr \<lparr>week = wk, scores = scores', espnMatchups = espn_matchups\<rparr>))"

subsection \<open>SeasonAggregator: \<^verbatim>\<open>get_all_weekly_data\<close>\<close>

text \<open>\<^verbatim>\<open>any(score > 0 for score in week_data["scores"].values())\<close>\<close>

definition positive_score :: "real \<Rightarrow> bool" where
  "positive_score score = (score > 0)"

definition any_positive :: "weekly_result \<Rightarrow> bool" where
  "any_positive week_data = list_ex positive_score (map snd (scores week_data))"

text \<open>The loop over \<^verbatim>\<open>range(1, current_week + 1)\<close>; the \<^verbatim>\<open>except\<close> branch prints and
  goes on with the next week.\<close>

fun weeks_loop :: "league \<Rightarrow> int list \<Rightarrow> weekly_result list \<Rightarrow> weekly_result list" where
  "weeks_loop lg [] weeks = weeks"
| "weeks_loop lg (wk # rest) weeks =
     (case get_weekly_data lg wk of
        Inr week_data \<Rightarrow>
          if any_positive week_data
          then weeks_loop lg rest (weeks @ [week_data])
          else weeks_loop lg rest weeks
      | Inl e \<Rightarrow> weeks_loop lg rest weeks)"

definition get_all_weekly_data :: "league \<Rightarrow> weekly_result list" where
  "get_all_weekly_data lg =
     (let current_week = min (current_week lg) REGULAR_SEASON_WEEKS
      in weeks_loop lg [1..current_week] [])"

subsection \<open>RoundRobinGenerator: \<^verbatim>\<open>generate_round_robin\<close>\<close>

text \<open>\<^verbatim>\<open>[teams[0]] + teams[1:][-(round_idx):] + teams[1:][:-(round_idx)] if round_idx else teams\<close>\<close>

definition rotated_teams :: "'a list \<Rightarrow> int \<Rightarrow> py_error + 'a list" where
  "rotated_teams teams round_idx =
     (if round_idx \<noteq> 0
      then (case py_index teams 0 of
              Inl e \<Rightarrow> Inl e
            | Inr t0 \<Rightarrow>
                Inr ([t0] @ slice_from (slice_from teams 1) (- round_idx)
                          @ slice_to (slice_from teams 1) (- round_idx)))
      else Inr teams)"

text \<open>The loop \<^verbatim>\<open>for i in range(n // 2)\<close>; \<open>None\<close> is the bye placeholder.\<close>

fun pair_loop ::
  "'a option list \<Rightarrow> int \<Rightarrow> int list \<Rightarrow> 'a matchups \<Rightarrow> py_error + 'a matchups"
where
  "pair_loop rotated n [] matchups = Inr matchups"
| "pair_loop rotated n (i # rest) matchups =
     (case py_index rotated i of
        Inl e \<Rightarrow> Inl e
      | Inr t1 \<Rightarrow>
          (case py_index rotated (n - 1 - i) of
             Inl e \<Rightarrow> Inl e
           | Inr t2 \<Rightarrow>
               (case (t1, t2) of
                  (Some a, Some b) \<Rightarrow> pair_loop rotated n rest (matchups @ [[a, b]])
                | _ \<Rightarrow> pair_loop rotated n rest matchups)))"

text \<open>The body of \<^verbatim>\<open>for week in range(1, weeks + 1)\<close> up to the assignment.\<close>

definition week_matchups :: "'a option list \<Rightarrow> int \<Rightarrow> int \<Rightarrow> py_error + 'a matchups" where
  "week_matchups teams n wk =
     (let round_idx = (wk - 1) mod (n - 1)
      in case rotated_teams teams round_idx of
           Inl e \<Rightarrow> Inl e
         | Inr rotated \<Rightarrow> pair_loop rotated n [0..n div 2 - 1] [])"

fun week_loop ::
  "'a option list \<Rightarrow> int \<Rightarrow> int list \<Rightarrow> 'a schedule \<Rightarrow> py_error + 'a schedule"
where
  "week_loop teams n [] schedule = Inr schedule"
| "week_loop teams n (wk # rest) schedule =
     (case week_matchups teams n wk of
        Inl e \<Rightarrow> Inl e
      | Inr matchups \<Rightarrow> week_loop teams n rest (AList.update (str wk) matchups schedule))"

definition generate_round_robin :: "'a list \<Rightarrow> int \<Rightarrow> py_error + 'a schedule" where
  "generate_round_robin team_ids weeks =
     (let n = int (length team_ids);
          teams = map Some team_ids;
          teams = (if n mod 2 = 1 then teams @ [None] else teams);
          n = int (length teams)
      in week_loop teams n [1..weeks] [])"

subsection \<open>Notions used to state the properties\<close>

text \<open>A week passes when its fetch and aggregation succeed and the inclusion test of
  \<^verbatim>\<open>get_all_weekly_data\<close> holds of the result.\<close>

definition week_passes :: "league \<Rightarrow> int \<Rightarrow> bool" where
  "week_passes lg wk =
     (case get_weekly_data lg wk of Inl e \<Rightarrow> False | Inr week_data \<Rightarrow> any_positive week_data)"

text \<open>"At least one team's score is nonzero", the reading under which a negative score counts.\<close>

definition nonzero_score :: "real \<Rightarrow> bool" where
  "nonzero_score score = (score \<noteq> 0)"

definition any_nonzero :: "weekly_result \<Rightarrow> bool" where
  "any_nonzero week_data = list_ex nonzero_score (map snd (scores week_data))"

text \<open>A league in its first week, one game under way: the home team stands at \<open>-1\<close>
  point, the away team has not scored.\<close>

definition negative_box :: box_score where
  "negative_box = \<lparr>home_team_id = 1, away_team_id = 2, home_score = - 1, away_score = 0\<rparr>"

definition negative_boxes :: "int \<Rightarrow> py_error + box_score list" where
  "negative_boxes wk = Inr [negative_box]"

definition negative_league :: league where
  "negative_league = \<lparr>current_week = 1, box_scores = negative_boxes\<rparr>"

text \<open>A sample provider: week 1 is played, the fetch of week 2 raises, week 3 is played,
  and the later weeks hold the all-zero placeholder.\<close>

definition sample_boxes :: "int \<Rightarrow> py_error + box_score list" where
  "sample_boxes wk =
     (if wk = 1 then
        Inr [\<lparr>home_team_id = 1, away_team_id = 2, home_score = 100, away_score = 90\<rparr>]
      else if wk = 2 then Inl ProviderError
      else if wk = 3 then
        Inr [\<lparr>home_team_id = 2, away_team_id = 1, home_score = 75, away_score = 0\<rparr>]
      else Inr [\<lparr>home_team_id = 1, away_team_id = 2, home_score = 0, away_score = 0\<rparr>])"

definition sample_league :: "int \<Rightarrow> league" where
  "sample_league cw = \<lparr>current_week = cw, box_scores = sample_boxes\<rparr>"

subsection \<open>Reading a schedule\<close>

text \<open>\<^verbatim>\<open>schedule[str(week)]\<close>\<close>

definition lookup_week :: "'a schedule \<Rightarrow> int \<Rightarrow> py_error + 'a matchups" where
  "lookup_week sched wk =
     (case map_of sched (str wk) of None \<Rightarrow> Inl KeyError | Some ms \<Rightarrow> Inr ms)"

text \<open>The matchups of a list of weeks, week by week; a missing week raises.\<close>

fun lookup_weeks :: "'a schedule \<Rightarrow> int list \<Rightarrow> py_error + 'a matchups list" where
  "lookup_weeks sched [] = Inr []"
| "lookup_weeks sched (wk # wks) =
     (case lookup_week sched wk of
        Inl e \<Rightarrow> Inl e
      | Inr ms \<Rightarrow>
          (case lookup_weeks sched wks of
             Inl e \<Rightarrow> Inl e
           | Inr mss \<Rightarrow> Inr (ms # mss)))"

text \<open>The pair \<open>p\<close> is a game between \<open>a\<close> and \<open>b\<close>, in either order.\<close>

definition plays :: "'a \<Rightarrow> 'a \<Rightarrow> 'a list \<Rightarrow> bool" where
  "plays a b p = (p = [a, b] \<or> p = [b, a])"

text \<open>How many pairs of a list of matchups are games between \<open>a\<close> and \<open>b\<close>.\<close>

definition games_between :: "'a matchups \<Rightarrow> 'a \<Rightarrow> 'a \<Rightarrow> nat" where
  "games_between ms a b = length (filter (plays a b) ms)"

text \<open>Team \<open>t\<close> appears in no pair of the week's matchups.\<close>

definition has_bye :: "'a matchups \<Rightarrow> 'a \<Rightarrow> bool" where
  "has_bye ms t = (t \<notin> set (concat ms))"

subsection \<open>The rounds of the circle method in closed form\<close>

text \<open>\<^verbatim>\<open>teams\<close> after the bye placeholder has been appended to an odd list.\<close>

definition bye_padded :: "'a list \<Rightarrow> 'a option list" where
  "bye_padded team_ids =
     (if odd (length team_ids) then map Some team_ids @ [None] else map Some team_ids)"

text \<open>\<^verbatim>\<open>round_idx\<close> of a week, as a natural number.\<close>

definition round_of :: "nat \<Rightarrow> int \<Rightarrow> nat" where
  "round_of n wk = nat ((wk - 1) mod (int n - 1))"

text \<open>The index in \<open>teams\<close> of the team that stands at position \<open>j\<close> of \<^verbatim>\<open>rotated\<close> in round
  \<open>r\<close>, for \<open>n\<close> teams: position 0 keeps the first team, the others are rotated by \<open>r\<close>.\<close>

definition seat :: "nat \<Rightarrow> nat \<Rightarrow> nat \<Rightarrow> nat" where
  "seat n r j = (case j of 0 \<Rightarrow> 0 | Suc i \<Rightarrow> Suc ((i + (n - 1 - r)) mod (n - 1)))"

text \<open>What one step of the pairing loop appends: the pair, unless one side is the bye.\<close>

definition emit :: "'a option \<Rightarrow> 'a option \<Rightarrow> 'a matchups" where
  "emit t1 t2 = (case (t1, t2) of (Some a, Some b) \<Rightarrow> [[a, b]] | _ \<Rightarrow> [])"

text \<open>The matchups of round \<open>r\<close>, read off the seats.\<close>

definition round_pairs :: "'a option list \<Rightarrow> nat \<Rightarrow> 'a matchups" where
  "round_pairs teams r =
     concat (map (\<lambda>i. emit (teams ! seat (length teams) r i)
                           (teams ! seat (length teams) r (length teams - 1 - i)))
               [0..<length teams div 2])"

text \<open>A number that the two seats of a pair determine, whichever way round they are taken:
  the sum of the rotating positions, the fixed team counting as its partner's double.\<close>

definition pair_key :: "nat \<Rightarrow> nat \<Rightarrow> nat" where
  "pair_key p q =
     (case p of 0 \<Rightarrow> 2 * (q - 1)
      | Suc p' \<Rightarrow> (case q of 0 \<Rightarrow> 2 * p' | Suc q' \<Rightarrow> p' + q'))"

text \<open>The pairs of round \<open>r\<close> as unordered pairs, byes included.\<close>

definition round_sets :: "'b list \<Rightarrow> nat \<Rightarrow> 'b set list" where
  "round_sets teams r =
     map (\<lambda>i. {teams ! seat (length teams) r i, teams ! seat (length teams) r (length teams - 1 - i)})
       [0..<length teams div 2]"

text \<open>The unordered pairs of the \<open>n - 1\<close> consecutive weeks that start at week \<open>s\<close>.\<close>

definition window_sets :: "'b list \<Rightarrow> int \<Rightarrow> 'b set list" where
  "window_sets teams s =
     concat (map (\<lambda>wk. round_sets teams (round_of (length teams) wk))
               [s..s + int (length teams) - 2])"

section \<open>Properties\<close>

subsection \<open>ScheduleStore\<close>

text \<open>
  C1. The schedule invariant (each pair lists two distinct team ids, a team appears in at
  most one pair per week) is meant to hold of the default schedule that \<^verbatim>\<open>load_schedule\<close>
  returns when no file exists. Evaluated on the literal table, it fails at week 9: that
  week is \<open>[[1,10],[2,3],[4,10],[5,8],[6,7]]\<close>, where team 10 plays twice.
\<close>

theorem default_schedule_week9_breaks_invariant:
  "load_schedule Absent = Inr default_schedule \<and>
   map_of default_schedule ''9'' = Some [[1,10],[2,3],[4,10],[5,8],[6,7]] \<and>
   \<not> week_ok [[1,10],[2,3],[4,10],[5,8],[6,7::int]] \<and>
   \<not> schedule_ok default_schedule"
  by (simp add: load_schedule_def default_schedule_def week_ok_def schedule_ok_def)

text \<open>The twelve other weeks of the table satisfy the invariant.\<close>

lemma default_schedule_other_weeks:
  "list_all week_ok (map snd (filter (\<lambda>(k, ms). k \<noteq> ''9'') default_schedule))"
  by (simp add: default_schedule_def week_ok_def pair_ok_def)

text \<open>
  C2 as stated (a malformed file is treated as a missing one and \<^verbatim>\<open>load_schedule\<close> never
  fails) does not hold: when the file exists and \<^verbatim>\<open>json.load\<close> raises, the exception leaves
  \<^verbatim>\<open>load_schedule\<close> and the route \<^verbatim>\<open>get_schedule\<close>, and no default is returned.
\<close>

theorem load_schedule_malformed_raises:
  "load_schedule (Present (Inl JSONDecodeError)) = Inl JSONDecodeError \<and>
   get_schedule (Present (Inl JSONDecodeError)) = Inl JSONDecodeError \<and>
   load_schedule (Present (Inl JSONDecodeError)) \<noteq> load_schedule Absent"
  by (simp add: load_schedule_def get_schedule_def)

text \<open>
  C2, amended. \<^verbatim>\<open>load_schedule\<close> returns the default schedule when the file is absent and
  the decoded content when the file is present and well-formed; it fails exactly when the
  file is present and decoding it raises, with the decoder's error, and \<^verbatim>\<open>get_schedule\<close>
  passes on whatever \<^verbatim>\<open>load_schedule\<close> does.
\<close>

theorem load_schedule_outcomes:
  "load_schedule Absent = Inr default_schedule \<and>
   load_schedule (Present (Inr s)) = Inr s \<and>
   (load_schedule path = Inl e) = (path = Present (Inl e)) \<and>
   get_schedule path = load_schedule path"
  by (cases path) (simp_all add: load_schedule_def get_schedule_def)

subsection \<open>WeeklyAggregator\<close>

lemma box_loop_matchups:
  "snd (box_loop boxes sc em) = em @ map (\<lambda>box. [home_team_id box, away_team_id box]) boxes"
  by (induction boxes arbitrary: sc em) (simp_all add: Let_def)

lemma box_loop_keys:
  "fst ` set (fst (box_loop boxes sc em)) =
     fst ` set sc \<union> (\<Union>box \<in> set boxes. {home_team_id box, away_team_id box})"
  by (induction boxes arbitrary: sc em) (auto simp add: Let_def dom_update)

lemma box_loop_distinct:
  "distinct (map fst sc) \<Longrightarrow> distinct (map fst (fst (box_loop boxes sc em)))"
  by (induction boxes arbitrary: sc em) (simp_all add: Let_def distinct_update)

text \<open>
  C10. When the provider returns the box results of a week, \<^verbatim>\<open>get_weekly_data\<close> returns a
  result for that week whose \<open>scores\<close> keys are exactly the team ids occurring in
  \<open>espnMatchups\<close>, and whose \<open>espnMatchups\<close> holds the \<open>[home_id, away_id]\<close> pair of each
  box result in provider order, one entry per box result.
\<close>

theorem weekly_data_shape:
  assumes "box_scores lg wk = Inr boxes"
  shows "\<exists>week_data. get_weekly_data lg wk = Inr week_data \<and>
           week week_data = wk \<and>
           fst ` set (scores week_data) = \<Union> (set ` set (espnMatchups week_data)) \<and>
           espnMatchups week_data = map (\<lambda>box. [home_team_id box, away_team_id box]) boxes \<and>
           length (espnMatchups week_data) = length boxes"
proof -
  obtain sc em where loop: "box_loop boxes [] [] = (sc, em)"
    by (cases "box_loop boxes [] []")
  have em: "em = map (\<lambda>box. [home_team_id box, away_team_id box]) boxes"
    using box_loop_matchups [of boxes "[]" "[]"] loop by simp
  have sc: "fst ` set sc = (\<Union>box \<in> set boxes. {home_team_id box, away_team_id box})"
    using box_loop_keys [of boxes "[]" "[]"] loop by simp
  have "get_weekly_data lg wk = Inr \<lparr>week = wk, scores = sc, espnMatchups = em\<rparr>"
    using assms loop by (simp add: get_weekly_data_def)
  moreover have "fst ` set sc = \<Union> (set ` set em)"
    unfolding sc em by auto
  ultimately show ?thesis using em by simp
qed

theorem weekly_data_shape_witness:
  "box_scores (sample_league 3) 1 =
     Inr [\<lparr>home_team_id = 1, away_team_id = 2, home_score = 100, away_score = 90\<rparr>] \<and>
   get_weekly_data (sample_league 3) 1 =
     Inr \<lparr>week = 1, scores = [(1, 100), (2, 90)], espnMatchups = [[1, 2]]\<rparr>"
  using weekly_data_shape [of "sample_league 3" 1
      "[\<lparr>home_team_id = 1, away_team_id = 2, home_score = 100, away_score = 90\<rparr>]"]
  by (simp add: sample_league_def sample_boxes_def get_weekly_data_def)

subsection \<open>SeasonAggregator\<close>

lemma weeks_loop_eq:
  "map Inr (weeks_loop lg wks acc) =
     map Inr acc @ map (get_weekly_data lg) (filter (week_passes lg) wks)"
  by (induction wks arbitrary: acc) (auto simp add: week_passes_def split: sum.splits)

lemma weeks_loop_week:
  "map week (weeks_loop lg wks acc) = map week acc @ filter (week_passes lg) wks"
  by (induction wks arbitrary: acc)
     (auto simp add: week_passes_def get_weekly_data_def split: sum.splits prod.splits)

text \<open>
  C4. Whatever weeks fail, \<^verbatim>\<open>get_all_weekly_data\<close> returns, and its output is, in order,
  exactly the results of the weeks of \<open>1..min(current_week, 13)\<close> that did not fail and
  pass the inclusion test: a failing week contributes nothing and stops nothing.
\<close>

theorem season_output_is_passing_weeks:
  "map Inr (get_all_weekly_data lg) =
     map (get_weekly_data lg)
       (filter (week_passes lg) [1..min (current_week lg) REGULAR_SEASON_WEEKS])"
  by (simp add: get_all_weekly_data_def weeks_loop_eq)

lemma season_output_example:
  "get_all_weekly_data (sample_league 5) =
     [\<lparr>week = 1, scores = [(1, 100), (2, 90)], espnMatchups = [[1, 2]]\<rparr>,
      \<lparr>week = 3, scores = [(2, 75), (1, 0)], espnMatchups = [[2, 1]]\<rparr>]"
  by (simp add: get_all_weekly_data_def sample_league_def sample_boxes_def
      get_weekly_data_def REGULAR_SEASON_WEEKS_def any_positive_def positive_score_def upto.simps)

lemma get_all_weeks:
  "map week (get_all_weekly_data lg) =
     filter (week_passes lg) [1..min (current_week lg) REGULAR_SEASON_WEEKS]"
  by (simp add: get_all_weekly_data_def weeks_loop_week)

lemma get_weekly_data_week: "get_weekly_data lg wk = Inr wd \<Longrightarrow> week wd = wk"
  by (auto simp add: get_weekly_data_def split: sum.splits prod.splits)

lemma in_season_iff:
  "wd \<in> set (get_all_weekly_data lg) \<longleftrightarrow>
     (\<exists>wk. 1 \<le> wk \<and> wk \<le> min (current_week lg) REGULAR_SEASON_WEEKS \<and>
        week_passes lg wk \<and> get_weekly_data lg wk = Inr wd)"
proof -
  have out: "map Inr (get_all_weekly_data lg) =
      map (get_weekly_data lg)
        (filter (week_passes lg) [1..min (current_week lg) REGULAR_SEASON_WEEKS])"
    by (simp add: get_all_weekly_data_def weeks_loop_eq)
  have "wd \<in> set (get_all_weekly_data lg) \<longleftrightarrow> Inr wd \<in> set (map Inr (get_all_weekly_data lg) :: (py_error + weekly_result) list)"
    by auto
  also have "\<dots> \<longleftrightarrow> (\<exists>wk. 1 \<le> wk \<and> wk \<le> min (current_week lg) REGULAR_SEASON_WEEKS \<and>
        week_passes lg wk \<and> get_weekly_data lg wk = Inr wd)"
    unfolding out by (auto simp add: image_iff)
  finally show ?thesis .
qed

text \<open>
  C3, amended. For a week of \<open>1..min(current_week, 13)\<close> whose fetch succeeds, the week's
  result is in the output if and only if at least one score of the week is strictly
  greater than zero.
\<close>

theorem season_keeps_week_iff_positive:
  assumes "1 \<le> wk" and "wk \<le> min (current_week lg) REGULAR_SEASON_WEEKS"
    and "get_weekly_data lg wk = Inr week_data"
  shows "(week_data \<in> set (get_all_weekly_data lg)) = any_positive week_data"
proof
  assume "week_data \<in> set (get_all_weekly_data lg)"
  then obtain wk' where "week_passes lg wk'" "get_weekly_data lg wk' = Inr week_data"
    unfolding in_season_iff by blast
  then show "any_positive week_data" by (simp add: week_passes_def)
next
  assume "any_positive week_data"
  with assms have "week_passes lg wk" by (simp add: week_passes_def)
  with assms show "week_data \<in> set (get_all_weekly_data lg)"
    unfolding in_season_iff by blast
qed

theorem season_keeps_week_iff_positive_witness:
  "(1::int) \<le> 3 \<and> 3 \<le> min (current_week (sample_league 5)) REGULAR_SEASON_WEEKS \<and>
   get_weekly_data (sample_league 5) 3 =
     Inr \<lparr>week = 3, scores = [(2, 75), (1, 0)], espnMatchups = [[2, 1]]\<rparr> \<and>
   (\<lparr>week = 3, scores = [(2, 75), (1, 0)], espnMatchups = [[2, 1]]\<rparr>
      \<in> set (get_all_weekly_data (sample_league 5))) \<and>
   any_positive \<lparr>week = 3, scores = [(2, 75), (1, 0)], espnMatchups = [[2, 1]]\<rparr>"
  using season_keeps_week_iff_positive [of 3 "sample_league 5"
      "\<lparr>week = 3, scores = [(2, 75), (1, 0)], espnMatchups = [[2, 1]]\<rparr>"]
  by (simp add: sample_league_def sample_boxes_def get_weekly_data_def
      REGULAR_SEASON_WEEKS_def any_positive_def positive_score_def)

text \<open>
  C3 as stated (the week is kept if and only if some score is nonzero) fails on a week
  whose only nonzero score is negative: the week has a nonzero score and is left out.
\<close>

theorem season_drops_negative_week:
  "get_weekly_data negative_league 1 =
     Inr \<lparr>week = 1, scores = [(1, - 1), (2, 0)], espnMatchups = [[1, 2]]\<rparr> \<and>
   any_nonzero \<lparr>week = 1, scores = [(1, - 1), (2, 0)], espnMatchups = [[1, 2]]\<rparr> \<and>
   get_all_weekly_data negative_league = []"
  by (simp add: get_weekly_data_def negative_league_def negative_boxes_def negative_box_def
      any_nonzero_def nonzero_score_def get_all_weekly_data_def REGULAR_SEASON_WEEKS_def
      any_positive_def positive_score_def upto.simps)

text \<open>
  C9. For a current week that is not negative, the output holds at most
  \<open>min(current_week, 13)\<close> results; the weeks of the output are the passing weeks of
  \<open>1..min(current_week, 13)\<close> in increasing order; and a league further on in the season,
  with the same data for the weeks up to the earlier current week, yields an output at
  least as long.
\<close>

theorem season_length_bounded_monotone:
  assumes "0 \<le> current_week lg"
    and "current_week lg \<le> current_week lg'"
    and "\<And>wk. 1 \<le> wk \<Longrightarrow> wk \<le> current_week lg \<Longrightarrow> box_scores lg' wk = box_scores lg wk"
  shows "int (length (get_all_weekly_data lg)) \<le> min (current_week lg) REGULAR_SEASON_WEEKS \<and>
         map week (get_all_weekly_data lg) =
           filter (week_passes lg) [1..min (current_week lg) REGULAR_SEASON_WEEKS] \<and>
         sorted_wrt (<) (map week (get_all_weekly_data lg)) \<and>
         length (get_all_weekly_data lg) \<le> length (get_all_weekly_data lg')"
proof (intro conjI)
  let ?m = "min (current_week lg) REGULAR_SEASON_WEEKS"
  let ?m' = "min (current_week lg') REGULAR_SEASON_WEEKS"
  have len: "length (get_all_weekly_data lg) = length (filter (week_passes lg) [1..?m])"
    using arg_cong [OF get_all_weeks [of lg], of length] by simp
  have "length (filter (week_passes lg) [1..?m]) \<le> length [1..?m]"
    by (rule length_filter_le)
  then show "int (length (get_all_weekly_data lg)) \<le> ?m"
    using assms(1) len by (simp add: REGULAR_SEASON_WEEKS_def) linarith
  show "map week (get_all_weekly_data lg) = filter (week_passes lg) [1..?m]"
    by (rule get_all_weeks)
  have "sorted_wrt (<) [1..?m]" by simp
  then show "sorted_wrt (<) (map week (get_all_weekly_data lg))"
    unfolding get_all_weeks by (rule sorted_wrt_filter)
  have same: "week_passes lg' wk = week_passes lg wk" if "wk \<in> set [1..?m]" for wk
    using that assms(3) [of wk] by (simp add: week_passes_def get_weekly_data_def)
  have len': "length (get_all_weekly_data lg') = length (filter (week_passes lg') [1..?m'])"
    using arg_cong [OF get_all_weeks [of lg'], of length] by simp
  have le: "?m \<le> ?m'" using assms(2) by simp
  have eq: "filter (week_passes lg') [1..?m] = filter (week_passes lg) [1..?m]"
    using same by (intro filter_cong) auto
  show "length (get_all_weekly_data lg) \<le> length (get_all_weekly_data lg')"
  proof (cases "1 \<le> ?m")
    case True
    with le have "[1..?m'] = [1..?m] @ [?m + 1..?m']"
      by (intro upto_split2)
    then show ?thesis
      unfolding len len' using eq by simp
  next
    case False
    then have "?m < 1" by linarith
    then have "[1..?m] = []" by (rule upto_empty)
    then show ?thesis unfolding len by simp
  qed
qed


theorem season_length_bounded_monotone_witness:
  "0 \<le> current_week (sample_league 2) \<and>
   current_week (sample_league 2) \<le> current_week (sample_league 5) \<and>
   int (length (get_all_weekly_data (sample_league 2)))
     \<le> min (current_week (sample_league 2)) REGULAR_SEASON_WEEKS \<and>
   map week (get_all_weekly_data (sample_league 2)) = [1] \<and>
   length (get_all_weekly_data (sample_league 2))
     \<le> length (get_all_weekly_data (sample_league 5))"
proof -
  have "box_scores (sample_league 5) wk = box_scores (sample_league 2) wk" for wk
    by (simp add: sample_league_def)
  then show ?thesis
    using season_length_bounded_monotone [of "sample_league 2" "sample_league 5"]
    by (simp add: sample_league_def week_passes_def get_weekly_data_def sample_boxes_def
        REGULAR_SEASON_WEEKS_def any_positive_def positive_score_def upto.simps)
qed

subsection \<open>RoundRobinGenerator\<close>

text \<open>
  The proofs below go in four steps. The decimal numerals of different weeks differ, so
  every assignment \<^verbatim>\<open>schedule[str(week)]\<close> adds a key. No index of the generator is out of
  range, and a week's matchups are the pairs of the seats of its round. The seats of one
  round are a permutation of the teams, and the key of a pair fixes its round, because the
  number of rotating teams is odd. Counting the pairs of \<open>n - 1\<close> consecutive rounds against
  the two-element subsets of the teams then shows that every pair occurs exactly once.
\<close>

lemma digit_char_inj: "a < 10 \<Longrightarrow> b < 10 \<Longrightarrow> digit_char a = digit_char b \<Longrightarrow> a = b"
  unfolding digit_char_def by (subst (asm) nth_eq_iff_index_eq) simp_all

lemma str_nat_nonempty: "str_nat n \<noteq> []"
  by (subst str_nat.simps) simp

lemma str_nat_inj: "str_nat a = str_nat b \<Longrightarrow> a = b"
proof (induction a arbitrary: b rule: str_nat.induct)
  case (1 n)
  show ?case
  proof (cases "n < 10")
    case True
    show ?thesis
    proof (cases "b < 10")
      case b: True
      from "1.prems" True b have "digit_char n = digit_char b"
        by (simp add: str_nat.simps [of n] str_nat.simps [of b])
      with True b show ?thesis by (rule digit_char_inj)
    next
      case b: False
      from "1.prems" True b have "str_nat (b div 10) = []"
        by (simp add: str_nat.simps [of n] str_nat.simps [of b] Cons_eq_append_conv)
      then show ?thesis by (simp add: str_nat_nonempty)
    qed
  next
    case False
    show ?thesis
    proof (cases "b < 10")
      case b: True
      from "1.prems" False b have "str_nat (n div 10) = []"
        by (simp add: str_nat.simps [of n] str_nat.simps [of b] append_eq_Cons_conv)
      then show ?thesis by (simp add: str_nat_nonempty)
    next
      case b: False
      from "1.prems" False b
      have eq: "str_nat (n div 10) = str_nat (b div 10)"
        and d: "digit_char (n mod 10) = digit_char (b mod 10)"
        by (simp_all add: str_nat.simps [of n] str_nat.simps [of b])
      from "1.IH" [OF False eq] have "n div 10 = b div 10" .
      moreover from d have "n mod 10 = b mod 10"
        by (intro digit_char_inj) simp_all
      ultimately show ?thesis
        by (metis div_mult_mod_eq)
    qed
  qed
qed

lemma str_inj: "0 \<le> i \<Longrightarrow> 0 \<le> j \<Longrightarrow> str i = str j \<Longrightarrow> i = j"
  using str_nat_inj [of "nat i" "nat j"] by (simp add: str_def)

lemma seat_round0: "j < n \<Longrightarrow> seat n 0 j = j"
proof (cases j)
  case 0
  then show ?thesis by (simp add: seat_def)
next
  case (Suc i)
  assume "j < n"
  with Suc have i: "i < n - 1" by simp
  have "(i + (n - 1 - 0)) mod (n - 1) = i mod (n - 1)"
    by (simp only: diff_zero mod_add_self2)
  also have "\<dots> = i" using i by (rule mod_less)
  finally show ?thesis using Suc by (simp only: seat_def nat.case)
qed

lemma seat_less: "2 \<le> n \<Longrightarrow> j < n \<Longrightarrow> seat n r j < n"
proof (cases j)
  case 0
  assume "2 \<le> n"
  with 0 show ?thesis by (simp add: seat_def)
next
  case (Suc i)
  assume n: "2 \<le> n"
  have "(i + (n - 1 - r)) mod (n - 1) < n - 1"
    using n by (intro mod_less_divisor) simp
  with Suc show ?thesis by (simp add: seat_def)
qed

lemma rotated_teams_seat:
  assumes n: "2 \<le> length teams" and r: "r < length teams - 1"
  shows "rotated_teams teams (int r) =
           Inr (map (\<lambda>j. teams ! seat (length teams) r j) [0..<length teams])"
proof (cases "r = 0")
  case True
  have "map (\<lambda>j. teams ! seat (length teams) 0 j) [0..<length teams] = teams"
    by (rule nth_equalityI) (simp_all add: seat_round0)
  with True show ?thesis by (simp add: rotated_teams_def)
next
  case False
  from n obtain t0 rest where teams: "teams = t0 # rest"
    by (cases teams) auto
  let ?m = "length rest"
  from r teams have rm: "r < ?m" by simp
  let ?k = "?m - r"
  have k: "?k < ?m" using False rm by simp
  have idx: "py_index teams 0 = Inr t0"
    by (simp add: py_index_def teams)
  have tl: "slice_from teams 1 = rest"
    by (simp add: slice_from_def teams)
  have a: "slice_from rest (- int r) = drop ?k rest"
    using False rm by (simp add: slice_from_def max_def nat_diff_distrib')
  have b: "slice_to rest (- int r) = take ?k rest"
    using False rm by (simp add: slice_to_def max_def nat_diff_distrib')
  have rot: "drop ?k rest @ take ?k rest = rotate ?k rest"
    using k by (simp add: rotate_drop_take)
  have "t0 # rotate ?k rest = map (\<lambda>j. teams ! seat (length teams) r j) [0..<length teams]"
  proof (rule nth_equalityI)
    show "length (t0 # rotate ?k rest) = length (map (\<lambda>j. teams ! seat (length teams) r j) [0..<length teams])"
      by (simp add: teams)
  next
    fix j assume "j < length (t0 # rotate ?k rest)"
    then have j: "j < length teams" by (simp add: teams)
    then have rhs: "map (\<lambda>j. teams ! seat (length teams) r j) [0..<length teams] ! j =
        teams ! seat (length teams) r j"
      by (simp del: upt_Suc)
    show "(t0 # rotate ?k rest) ! j = map (\<lambda>j. teams ! seat (length teams) r j) [0..<length teams] ! j"
    proof (cases j)
      case 0
      then show ?thesis unfolding rhs by (simp add: teams seat_def)
    next
      case (Suc i)
      with j have i: "i < ?m" by (simp add: teams)
      have "rotate ?k rest ! i = rest ! ((?k + i) mod ?m)"
        using i by (rule nth_rotate)
      then show ?thesis
        unfolding rhs using Suc by (simp add: teams seat_def add.commute)
    qed
  qed
  with False idx tl a b rot show ?thesis
    by (simp add: rotated_teams_def)
qed

lemma upto_as_upt: "[0..int k - 1] = map int [0..<k]"
proof (induction k)
  case 0
  show ?case by simp
next
  case (Suc k)
  have "[0..int (Suc k) - 1] = [0..int k - 1] @ [int k]"
    using upto_rec2 [of 0 "int k"] by simp
  with Suc show ?case by simp
qed

lemma py_index_nat: "i < length xs \<Longrightarrow> py_index xs (int i) = Inr (xs ! i)"
  by (simp add: py_index_def)

lemma pair_loop_eq:
  assumes "length rotated = n" and "\<forall>i \<in> set idxs. i < n"
  shows "pair_loop rotated (int n) (map int idxs) acc =
           Inr (acc @ concat (map (\<lambda>i. emit (rotated ! i) (rotated ! (n - 1 - i))) idxs))"
  using assms(2)
proof (induction idxs arbitrary: acc)
  case Nil
  show ?case by simp
next
  case (Cons i idxs)
  from Cons.prems have i: "i < n" by simp
  have a: "py_index rotated (int i) = Inr (rotated ! i)"
    using i assms(1) by (simp add: py_index_nat)
  have "py_index rotated (int (n - 1 - i)) = Inr (rotated ! (n - 1 - i))"
    using i assms(1) by (intro py_index_nat) simp
  moreover have "int n - 1 - int i = int (n - 1 - i)" using i by simp
  ultimately have b: "py_index rotated (int n - 1 - int i) = Inr (rotated ! (n - 1 - i))"
    by (simp only:)
  from Cons.prems have rest: "\<forall>i \<in> set idxs. i < n" by simp
  show ?case
    by (simp add: a b Cons.IH [OF rest] emit_def split: option.splits)
qed

lemma week_matchups_eq:
  assumes n: "2 \<le> length teams"
  shows "week_matchups teams (int (length teams)) wk =
           Inr (round_pairs teams (round_of (length teams) wk))"
proof -
  let ?n = "length teams"
  let ?r = "round_of ?n wk"
  have pos: "0 < int ?n - 1" using n by simp
  have r0: "0 \<le> (wk - 1) mod (int ?n - 1)"
    using pos by (rule pos_mod_sign)
  have "(wk - 1) mod (int ?n - 1) < int ?n - 1"
    using pos by (rule pos_mod_bound)
  then have r: "?r < ?n - 1" using r0 by (simp add: round_of_def)
  have ridx: "(wk - 1) mod (int ?n - 1) = int ?r"
    using r0 by (simp add: round_of_def)
  let ?rot = "map (\<lambda>j. teams ! seat ?n ?r j) [0..<?n]"
  have rot: "rotated_teams teams (int ?r) = Inr ?rot"
    using n r by (rule rotated_teams_seat)
  have half: "[0..int ?n div 2 - 1] = map int [0..<?n div 2]"
    using upto_as_upt [of "?n div 2"] by (simp add: zdiv_int)
  have loop: "pair_loop ?rot (int ?n) (map int [0..<?n div 2]) [] =
      Inr ([] @ concat (map (\<lambda>i. emit (?rot ! i) (?rot ! (?n - 1 - i))) [0..<?n div 2]))"
    by (rule pair_loop_eq) auto
  have "concat (map (\<lambda>i. emit (?rot ! i) (?rot ! (?n - 1 - i))) [0..<?n div 2]) =
      round_pairs teams ?r"
    unfolding round_pairs_def
    by (intro arg_cong [where f = concat] map_cong) auto
  with loop rot half ridx show ?thesis
    by (simp add: week_matchups_def)
qed

lemma update_fresh: "k \<notin> fst ` set al \<Longrightarrow> AList.update k v al = al @ [(k, v)]"
  by (induction al) auto

lemma week_loop_eq:
  assumes n: "2 \<le> length teams"
  shows "distinct wks \<Longrightarrow> \<forall>wk \<in> set wks. 0 \<le> wk \<Longrightarrow>
         fst ` set sched \<inter> str ` set wks = {} \<Longrightarrow>
         week_loop teams (int (length teams)) wks sched =
           Inr (sched @ map (\<lambda>wk. (str wk, round_pairs teams (round_of (length teams) wk))) wks)"
proof (induction wks arbitrary: sched)
  case Nil
  show ?case by simp
next
  case (Cons wk wks)
  let ?ms = "round_pairs teams (round_of (length teams) wk)"
  from Cons.prems have fresh: "str wk \<notin> fst ` set sched" by auto
  have upd: "AList.update (str wk) ?ms sched = sched @ [(str wk, ?ms)]"
    using fresh by (rule update_fresh)
  have "str wk \<notin> str ` set wks"
  proof
    assume "str wk \<in> str ` set wks"
    then obtain wk' where "wk' \<in> set wks" "str wk = str wk'" by auto
    with Cons.prems have "wk = wk'" by (intro str_inj) auto
    with \<open>wk' \<in> set wks\<close> Cons.prems(1) show False by simp
  qed
  with Cons.prems have disj: "fst ` set (sched @ [(str wk, ?ms)]) \<inter> str ` set wks = {}"
    by auto
  from Cons.prems have d: "distinct wks" and p: "\<forall>wk \<in> set wks. 0 \<le> wk" by auto
  show ?case
    by (simp add: week_matchups_eq [OF n] upd Cons.IH [OF d p disj])
qed

lemma length_bye_padded: "team_ids \<noteq> [] \<Longrightarrow> 2 \<le> length (bye_padded team_ids)"
  by (cases team_ids) (auto simp add: bye_padded_def elim: oddE)

lemma even_length_bye_padded: "even (length (bye_padded team_ids))"
  by (simp add: bye_padded_def)

lemma generate_round_robin_eq:
  assumes "team_ids \<noteq> []"
  shows "generate_round_robin team_ids weeks =
     Inr (map (\<lambda>wk. (str wk, round_pairs (bye_padded team_ids)
                                (round_of (length (bye_padded team_ids)) wk)))
            [1..weeks])"
proof -
  have odd: "(int (length team_ids) mod 2 = 1) = odd (length team_ids)"
    by presburger
  have "generate_round_robin team_ids weeks =
      week_loop (bye_padded team_ids) (int (length (bye_padded team_ids))) [1..weeks] []"
    by (simp add: generate_round_robin_def Let_def odd bye_padded_def)
  also have "\<dots> = Inr ([] @ map (\<lambda>wk. (str wk, round_pairs (bye_padded team_ids)
                                (round_of (length (bye_padded team_ids)) wk))) [1..weeks])"
    using length_bye_padded [OF assms] by (intro week_loop_eq) auto
  finally show ?thesis by simp
qed

lemma dvd_less_zero_nat: "m dvd d \<Longrightarrow> d < m \<Longrightarrow> d = 0" for m d :: nat
  using nat_dvd_not_less [of d m] by auto

lemma dvd_less_zero_int: "m dvd d \<Longrightarrow> \<bar>d\<bar> < m \<Longrightarrow> d = 0" for m d :: int
  using zdvd_not_zless [of "\<bar>d\<bar>" m] by auto

lemma mod_sum3: "(a mod m + b mod m + c) mod m = (a + b + c) mod m" for a b c m :: nat
  by (metis mod_add_eq mod_add_left_eq)

lemma mod_add_inj:
  fixes i :: nat
  assumes "i < m" "i' < m" "(i + c) mod m = (i' + c) mod m"
  shows "i = i'"
proof -
  have aux: "a = b" if "a \<le> b" "b < m" "(a + c) mod m = (b + c) mod m" for a b :: nat
  proof -
    from that(1) have "a + c \<le> b + c" by simp
    then have "m dvd (b + c) - (a + c)"
      using that(3) [symmetric] by (simp only: mod_eq_dvd_iff_nat)
    then have "m dvd b - a" by simp
    moreover have "b - a < m" using that(2) by simp
    ultimately have "b - a = 0" by (rule dvd_less_zero_nat)
    with that(1) show ?thesis by simp
  qed
  show ?thesis
  proof (cases "i \<le> i'")
    case True
    then show ?thesis using assms(2,3) by (rule aux)
  next
    case False
    then have "i' \<le> i" by simp
    then have "i' = i" using assms(1) assms(3) [symmetric] by (rule aux)
    then show ?thesis by simp
  qed
qed

lemma seat_inj:
  assumes "j < n" "j' < n" "seat n r j = seat n r j'"
  shows "j = j'"
proof (cases j)
  case 0
  with assms(3) show ?thesis by (cases j') (simp_all add: seat_def)
next
  case (Suc i)
  show ?thesis
  proof (cases j')
    case 0
    with Suc assms(3) show ?thesis by (simp add: seat_def)
  next
    case j': (Suc i')
    from Suc j' assms(3)
    have "(i + (n - 1 - r)) mod (n - 1) = (i' + (n - 1 - r)) mod (n - 1)"
      by (simp add: seat_def)
    moreover have "i < n - 1" "i' < n - 1" using Suc j' assms(1,2) by simp_all
    ultimately have "i = i'" using mod_add_inj [of i "n - 1" i' "n - 1 - r"] by simp
    with Suc j' show ?thesis by simp
  qed
qed

lemma pair_key_sym: "pair_key p q = pair_key q p"
  by (cases p; cases q) (simp_all add: pair_key_def)

lemma pair_key_round:
  assumes n: "even n" "2 \<le> n" and r: "r < n - 1" and i: "i < n div 2"
  shows "(pair_key (seat n r i) (seat n r (n - 1 - i)) + 2 * r + 2) mod (n - 1) = 0"
proof (cases i)
  case 0
  from n obtain m' where m': "n = Suc (Suc m')"
    by (metis One_nat_def Suc_1 Suc_le_D Suc_le_mono)
  have r': "r \<le> m'" using r m' by simp
  have "(m' + (Suc m' - r)) mod Suc m' = (Suc m' + (m' - r)) mod Suc m'"
    using r' by (intro arg_cong [where f = "\<lambda>x. x mod Suc m'"]) simp
  also have "\<dots> = (m' - r) mod Suc m'" by (simp only: mod_add_self1)
  also have "\<dots> = m' - r" by (intro mod_less) simp
  finally have seat1: "seat n r (n - 1) = Suc (m' - r)"
    by (simp add: seat_def m')
  have "pair_key (seat n r 0) (seat n r (n - 1)) + 2 * r + 2 = 2 * (n - 1)"
    unfolding seat1 using r' by (simp add: seat_def pair_key_def m')
  with 0 show ?thesis by simp
next
  case (Suc i0)
  let ?m = "n - 1"
  from i Suc n have big: "i0 + 1 < n div 2" "Suc i0 \<le> ?m - 1" by auto
  have nm: "n - 1 - i = Suc (?m - 1 - i)" using i n by auto
  let ?A = "i0 + (?m - r)" and ?B = "(?m - 1 - i) + (?m - r)"
  have key: "pair_key (seat n r i) (seat n r (n - 1 - i)) = ?A mod ?m + ?B mod ?m"
    unfolding nm by (simp add: Suc seat_def pair_key_def)
  have i2: "2 * i < n" using i by linarith
  have "(?A mod ?m + ?B mod ?m + 2 * r + 2) mod ?m = (?A mod ?m + ?B mod ?m + (2 * r + 2)) mod ?m"
    by (simp only: add.assoc)
  also have "\<dots> = (?A + ?B + (2 * r + 2)) mod ?m"
    by (rule mod_sum3)
  also have "?A + ?B + (2 * r + 2) = 3 * ?m"
    using r i2 Suc by linarith
  also have "(3 * ?m) mod ?m = 0" by simp
  finally show ?thesis unfolding key .
qed

lemma round_unique:
  fixes r r' m k :: nat
  assumes m: "odd m" and r: "r < m" "r' < m"
    and a: "(k + 2 * r + 2) mod m = 0" and b: "(k + 2 * r' + 2) mod m = 0"
  shows "r = r'"
proof -
  have aux: "x = y" if "x \<le> y" "y < m" "(k + 2 * x + 2) mod m = 0" "(k + 2 * y + 2) mod m = 0"
    for x y :: nat
  proof -
    from that(3,4) have "m dvd k + 2 * x + 2" "m dvd k + 2 * y + 2" by auto
    then have "m dvd (k + 2 * y + 2) - (k + 2 * x + 2)" by (rule dvd_diff_nat [rotated])
    moreover have "(k + 2 * y + 2) - (k + 2 * x + 2) = 2 * (y - x)" using that(1) by simp
    ultimately have "m dvd 2 * (y - x)" by simp
    moreover have "coprime m 2" using m by simp
    ultimately have "m dvd y - x" by (simp add: coprime_dvd_mult_right_iff)
    moreover have "y - x < m" using that(2) by simp
    ultimately have "y - x = 0" by (rule dvd_less_zero_nat)
    with that(1) show ?thesis by simp
  qed
  show ?thesis
  proof (cases "r \<le> r'")
    case True
    then show ?thesis using r(2) a b by (rule aux)
  next
    case False
    then have "r' \<le> r" by simp
    then have "r' = r" using r(1) b a by (rule aux)
    then show ?thesis by simp
  qed
qed

lemma round_of_less: "2 \<le> n \<Longrightarrow> round_of n wk < n - 1"
proof -
  assume n: "2 \<le> n"
  then have pos: "0 < int n - 1" by simp
  have "0 \<le> (wk - 1) mod (int n - 1)" using pos by (rule pos_mod_sign)
  moreover have "(wk - 1) mod (int n - 1) < int n - 1" using pos by (rule pos_mod_bound)
  ultimately show ?thesis by (simp add: round_of_def)
qed

lemma round_of_inj_window:
  assumes n: "2 \<le> n" and w: "s \<le> wk" "wk < s + (int n - 1)" "s \<le> wk'" "wk' < s + (int n - 1)"
    and eq: "round_of n wk = round_of n wk'"
  shows "wk = wk'"
proof -
  from n have pos: "0 < int n - 1" by simp
  have "0 \<le> (wk - 1) mod (int n - 1)" "0 \<le> (wk' - 1) mod (int n - 1)"
    using pos by (simp_all)
  with eq have "(wk - 1) mod (int n - 1) = (wk' - 1) mod (int n - 1)"
    by (simp add: round_of_def)
  then have "(int n - 1) dvd (wk - 1) - (wk' - 1)"
    by (simp add: mod_eq_dvd_iff)
  then have d: "(int n - 1) dvd wk - wk'" by simp
  have "\<bar>wk - wk'\<bar> < int n - 1" using w by linarith
  with d have "wk - wk' = 0"
    by (rule dvd_less_zero_int)
  then show ?thesis by simp
qed

lemma distinct_concat_map:
  assumes "distinct ws"
    and "\<And>w. w \<in> set ws \<Longrightarrow> distinct (f w)"
    and "\<And>w w' x. w \<in> set ws \<Longrightarrow> w' \<in> set ws \<Longrightarrow> x \<in> set (f w) \<Longrightarrow> x \<in> set (f w') \<Longrightarrow> w = w'"
  shows "distinct (concat (map f ws))"
  using assms
proof (induction ws)
  case Nil
  show ?case by simp
next
  case (Cons w ws)
  have "distinct (concat (map f ws))"
    using Cons.prems by (intro Cons.IH) auto
  moreover have "distinct (f w)" using Cons.prems(2) by simp
  moreover have "set (f w) \<inter> set (concat (map f ws)) = {}"
  proof (rule ccontr)
    assume "set (f w) \<inter> set (concat (map f ws)) \<noteq> {}"
    then obtain x w' where x: "x \<in> set (f w)" "w' \<in> set ws" "x \<in> set (f w')" by auto
    then have "w = w'" using Cons.prems(3) [of w w' x] by simp
    with x(2) Cons.prems(1) show False by simp
  qed
  ultimately show ?case by simp
qed

lemma mirror_ge_half:
  fixes n i :: nat
  assumes "even n" "i < n div 2"
  shows "n div 2 \<le> n - 1 - i" "n - 1 - i < n"
  using assms by (auto elim!: evenE)

lemma round_sets_inj:
  assumes d: "distinct teams" and n: "even (length teams)" "2 \<le> length teams"
    and i: "i < length teams div 2" "i' < length teams div 2"
    and eq: "{teams ! seat (length teams) r i, teams ! seat (length teams) r (length teams - 1 - i)} =
             {teams ! seat (length teams) r i', teams ! seat (length teams) r (length teams - 1 - i')}"
  shows "i = i'"
proof -
  let ?n = "length teams"
  have lt: "i < ?n" "i' < ?n" using i by simp_all
  have m: "?n - 1 - i' < ?n" "?n div 2 \<le> ?n - 1 - i'"
    using mirror_ge_half [OF n(1) i(2)] by simp_all
  from eq have "teams ! seat ?n r i = teams ! seat ?n r i' \<or>
      teams ! seat ?n r i = teams ! seat ?n r (?n - 1 - i')"
    by (auto simp add: doubleton_eq_iff)
  then have "seat ?n r i = seat ?n r i' \<or> seat ?n r i = seat ?n r (?n - 1 - i')"
    using d lt m(1) n(2) by (simp add: nth_eq_iff_index_eq seat_less)
  then have "i = i' \<or> i = ?n - 1 - i'"
    using lt m(1) by (auto dest: seat_inj)
  with i(1) m(2) show ?thesis by auto
qed

lemma distinct_round_sets:
  assumes "distinct teams" "even (length teams)" "2 \<le> length teams"
  shows "distinct (round_sets teams r)"
  unfolding round_sets_def
  by (rule distinct_map [THEN iffD2])
     (auto intro!: inj_onI round_sets_inj [OF assms])

lemma round_sets_two:
  assumes d: "distinct teams" and n: "even (length teams)" "2 \<le> length teams"
    and S: "S \<in> set (round_sets teams r)"
  shows "S \<subseteq> set teams \<and> card S = 2"
proof -
  let ?n = "length teams"
  from S obtain i where i: "i < ?n div 2"
    and S': "S = {teams ! seat ?n r i, teams ! seat ?n r (?n - 1 - i)}"
    by (auto simp add: round_sets_def)
  have lt: "i < ?n" using i by simp
  have m: "?n - 1 - i < ?n" "?n div 2 \<le> ?n - 1 - i"
    using mirror_ge_half [OF n(1) i] by simp_all
  have a: "seat ?n r i < ?n" using n(2) lt by (rule seat_less)
  have b: "seat ?n r (?n - 1 - i) < ?n" using n(2) m(1) by (rule seat_less)
  have "seat ?n r i \<noteq> seat ?n r (?n - 1 - i)"
    using seat_inj [OF lt m(1)] i m(2) by auto
  then have "teams ! seat ?n r i \<noteq> teams ! seat ?n r (?n - 1 - i)"
    using d a b by (simp add: nth_eq_iff_index_eq)
  then show ?thesis unfolding S' using a b by simp
qed

lemma round_sets_round:
  assumes d: "distinct teams" and n: "even (length teams)" "2 \<le> length teams"
    and r: "r < length teams - 1" "r' < length teams - 1"
    and S: "S \<in> set (round_sets teams r)" "S \<in> set (round_sets teams r')"
  shows "r = r'"
proof -
  let ?n = "length teams"
  from S(1) obtain i where i: "i < ?n div 2"
    and Si: "S = {teams ! seat ?n r i, teams ! seat ?n r (?n - 1 - i)}"
    by (auto simp add: round_sets_def)
  from S(2) obtain i' where i': "i' < ?n div 2"
    and Si': "S = {teams ! seat ?n r' i', teams ! seat ?n r' (?n - 1 - i')}"
    by (auto simp add: round_sets_def)
  let ?p = "seat ?n r i" and ?q = "seat ?n r (?n - 1 - i)"
  let ?p' = "seat ?n r' i'" and ?q' = "seat ?n r' (?n - 1 - i')"
  have lt: "?p < ?n" "?q < ?n" "?p' < ?n" "?q' < ?n"
    using n i i' mirror_ge_half(2) [OF n(1)] by (simp_all add: seat_less)
  from Si Si' have "{teams ! ?p, teams ! ?q} = {teams ! ?p', teams ! ?q'}"
    by (simp only:)
  then have "(teams ! ?p = teams ! ?p' \<and> teams ! ?q = teams ! ?q') \<or>
      (teams ! ?p = teams ! ?q' \<and> teams ! ?q = teams ! ?p')"
    by (simp only: doubleton_eq_iff)
  then have "(?p = ?p' \<and> ?q = ?q') \<or> (?p = ?q' \<and> ?q = ?p')"
    using d lt by (simp add: nth_eq_iff_index_eq)
  then have k: "pair_key ?p ?q = pair_key ?p' ?q'"
    using pair_key_sym [of ?p' ?q'] by auto
  have "(pair_key ?p ?q + 2 * r + 2) mod (?n - 1) = 0"
    using n r(1) i by (rule pair_key_round)
  moreover have "(pair_key ?p' ?q' + 2 * r' + 2) mod (?n - 1) = 0"
    using n r(2) i' by (rule pair_key_round)
  moreover have "odd (?n - 1)" using n by auto
  ultimately show ?thesis
    using r k round_unique [of "?n - 1" r r' "pair_key ?p ?q"] by simp
qed

lemma length_window_sets:
  assumes "2 \<le> length teams"
  shows "length (window_sets teams s) = (length teams - 1) * (length teams div 2)"
proof -
  have "nat (int (length teams) - 1) = length teams - 1" by linarith
  then show ?thesis
    by (simp add: window_sets_def round_sets_def length_concat comp_def sum_list_triv)
qed

lemma distinct_window_sets:
  assumes d: "distinct teams" and n: "even (length teams)" "2 \<le> length teams"
  shows "distinct (window_sets teams s)"
  unfolding window_sets_def
proof (rule distinct_concat_map)
  show "distinct [s..s + int (length teams) - 2]" by simp
next
  fix w show "distinct (round_sets teams (round_of (length teams) w))"
    using assms by (rule distinct_round_sets)
next
  fix w w' S
  assume w: "w \<in> set [s..s + int (length teams) - 2]" "w' \<in> set [s..s + int (length teams) - 2]"
    and S: "S \<in> set (round_sets teams (round_of (length teams) w))"
      "S \<in> set (round_sets teams (round_of (length teams) w'))"
  have "round_of (length teams) w = round_of (length teams) w'"
    using d n round_of_less [OF n(2)] round_of_less [OF n(2)] S
    by (rule round_sets_round)
  with w show "w = w'"
    using n(2) by (intro round_of_inj_window [of "length teams" s w w']) auto
qed

lemma set_window_sets:
  assumes d: "distinct teams" and n: "even (length teams)" "2 \<le> length teams"
  shows "set (window_sets teams s) = {S. S \<subseteq> set teams \<and> card S = 2}"
proof (rule card_subset_eq)
  show "finite {S. S \<subseteq> set teams \<and> card S = 2}" by simp
  show "set (window_sets teams s) \<subseteq> {S. S \<subseteq> set teams \<and> card S = 2}"
    using round_sets_two [OF assms] by (auto simp add: window_sets_def)
  let ?n = "length teams"
  have "card (set (window_sets teams s)) = (?n - 1) * (?n div 2)"
    using distinct_window_sets [OF assms] length_window_sets [OF n(2)]
    by (simp add: distinct_card)
  moreover have "card {S. S \<subseteq> set teams \<and> card S = 2} = ?n choose 2"
    using d by (simp add: n_subsets distinct_card)
  moreover have "?n choose 2 = (?n - 1) * (?n div 2)"
    using n by (auto simp add: choose_two elim!: evenE)
  ultimately show "card (set (window_sets teams s)) = card {S. S \<subseteq> set teams \<and> card S = 2}"
    by simp
qed

lemma count_distinct: "distinct xs \<Longrightarrow> count_list xs x = (if x \<in> set xs then 1 else 0)"
  by (induction xs) auto

lemma count_window_sets:
  assumes d: "distinct teams" and n: "even (length teams)" "2 \<le> length teams"
    and x: "x \<in> set teams" "y \<in> set teams" "x \<noteq> y"
  shows "count_list (window_sets teams s) {x, y} = 1"
proof -
  have "{x, y} \<in> set (window_sets teams s)"
    unfolding set_window_sets [OF d n] using x by simp
  then show ?thesis
    using distinct_window_sets [OF d n, of s] by (simp add: count_distinct)
qed

lemma round_seats_disjoint:
  assumes d: "distinct teams" and n: "even (length teams)" "2 \<le> length teams"
    and i: "i < length teams div 2" "j < length teams div 2"
    and x: "x \<in> {teams ! seat (length teams) r i, teams ! seat (length teams) r (length teams - 1 - i)}"
           "x \<in> {teams ! seat (length teams) r j, teams ! seat (length teams) r (length teams - 1 - j)}"
  shows "i = j"
proof -
  let ?n = "length teams"
  have lt: "i < ?n" "j < ?n" using i by simp_all
  have mi: "?n - 1 - i < ?n" "?n div 2 \<le> ?n - 1 - i"
    using mirror_ge_half [OF n(1) i(1)] by simp_all
  have mj: "?n - 1 - j < ?n" "?n div 2 \<le> ?n - 1 - j"
    using mirror_ge_half [OF n(1) i(2)] by simp_all
  from x obtain a b where a: "a = i \<or> a = ?n - 1 - i" and b: "b = j \<or> b = ?n - 1 - j"
    and eq: "teams ! seat ?n r a = teams ! seat ?n r b"
    by auto
  have la: "a < ?n" and lb: "b < ?n" using a b lt mi mj by auto
  have "seat ?n r a = seat ?n r b"
    using eq d seat_less [OF n(2) la] seat_less [OF n(2) lb]
    by (simp add: nth_eq_iff_index_eq)
  with la lb have "a = b" by (rule seat_inj)
  with a b i mi(2) mj(2) show ?thesis by auto
qed

lemma seat_onto:
  assumes n: "2 \<le> n" and p: "p < n"
  shows "\<exists>j < n. seat n r j = p"
proof -
  have "inj_on (seat n r) {..<n}"
    by (rule inj_onI) (auto dest: seat_inj)
  then have "card (seat n r ` {..<n}) = n"
    by (simp add: card_image)
  moreover have "seat n r ` {..<n} \<subseteq> {..<n}"
    using seat_less [OF n] by auto
  ultimately have "seat n r ` {..<n} = {..<n}"
    by (intro card_subset_eq) simp_all
  with p have "p \<in> seat n r ` {..<n}" by simp
  then show ?thesis by auto
qed

lemma every_team_seated:
  assumes n: "even (length teams)" "2 \<le> length teams" and x: "x \<in> set teams"
  shows "\<exists>i < length teams div 2.
           x \<in> {teams ! seat (length teams) r i, teams ! seat (length teams) r (length teams - 1 - i)}"
proof -
  let ?n = "length teams"
  from x obtain p where p: "p < ?n" "x = teams ! p"
    by (auto simp add: in_set_conv_nth)
  from seat_onto [OF n(2) p(1)] obtain j where j: "j < ?n" "seat ?n r j = p"
    by blast
  show ?thesis
  proof (cases "j < ?n div 2")
    case True
    with j p show ?thesis by auto
  next
    case False
    let ?i = "?n - 1 - j"
    have "?i < ?n div 2" using False j(1) n(1) by (auto elim!: evenE)
    moreover have "?n - 1 - ?i = j" using j(1) by simp
    ultimately show ?thesis using j p by auto
  qed
qed

lemma emit_elems: "a \<in> set (concat (emit x y)) \<Longrightarrow> Some a \<in> {x, y}"
  by (auto simp add: emit_def split: option.splits)

lemma emit_week_ok: "x \<noteq> y \<Longrightarrow> week_ok (emit x y)"
  by (auto simp add: emit_def week_ok_def pair_ok_def split: option.splits)

lemma week_ok_append:
  "week_ok (xs @ ys) = (week_ok xs \<and> week_ok ys \<and> set (concat xs) \<inter> set (concat ys) = {})"
  by (auto simp add: week_ok_def)

lemma week_ok_seats:
  assumes d: "distinct teams" and n: "even (length teams)" "2 \<le> length teams"
  shows "distinct idxs \<Longrightarrow> \<forall>i \<in> set idxs. i < length teams div 2 \<Longrightarrow>
         week_ok (concat (map (\<lambda>i. emit (teams ! seat (length teams) r i)
                   (teams ! seat (length teams) r (length teams - 1 - i))) idxs))"
proof (induction idxs)
  case Nil
  show ?case by (simp add: week_ok_def)
next
  case (Cons i idxs)
  let ?n = "length teams"
  let ?g = "\<lambda>i. emit (teams ! seat ?n r i) (teams ! seat ?n r (?n - 1 - i))"
  from Cons.prems have i: "i < ?n div 2" by simp
  have "i < ?n" using i by linarith
  with n(2) have a: "seat ?n r i < ?n" by (rule seat_less)
  have b: "seat ?n r (?n - 1 - i) < ?n"
    using n(2) mirror_ge_half(2) [OF n(1) i] by (intro seat_less)
  have "seat ?n r i \<noteq> seat ?n r (?n - 1 - i)"
    using seat_inj [of i ?n "?n - 1 - i" r] i mirror_ge_half [OF n(1) i] by auto
  then have "teams ! seat ?n r i \<noteq> teams ! seat ?n r (?n - 1 - i)"
    using d a b by (simp add: nth_eq_iff_index_eq)
  then have one: "week_ok (?g i)" by (rule emit_week_ok)
  have rest: "week_ok (concat (map ?g idxs))"
    using Cons.prems by (intro Cons.IH) simp_all
  have "set (concat (?g i)) \<inter> set (concat (concat (map ?g idxs))) = {}"
  proof (rule ccontr)
    assume "set (concat (?g i)) \<inter> set (concat (concat (map ?g idxs))) \<noteq> {}"
    then obtain t j where t: "t \<in> set (concat (?g i))" "j \<in> set idxs" "t \<in> set (concat (?g j))"
      by auto
    from Cons.prems t(2) have j: "j < ?n div 2" "i \<noteq> j" by auto
    have "i = j"
      using d n i j(1) emit_elems [OF t(1)] emit_elems [OF t(3)]
      by (rule round_seats_disjoint)
    with j(2) show False by simp
  qed
  with one rest show ?case by (simp add: week_ok_append)
qed

lemma week_ok_round_pairs:
  assumes "distinct teams" "even (length teams)" "2 \<le> length teams"
  shows "week_ok (round_pairs teams r)"
  unfolding round_pairs_def using assms by (intro week_ok_seats) simp_all

lemma distinct_bye_padded: "distinct team_ids \<Longrightarrow> distinct (bye_padded team_ids)"
  by (auto simp add: bye_padded_def distinct_map)

text \<open>
  C6. For every list of at least two distinct team ids and every number of weeks,
  \<^verbatim>\<open>generate_round_robin\<close> returns a schedule with the keys \<open>str 1, \<dots>, str weeks\<close> in which
  every pair lists two different team ids and, within a week, no team id occurs in more
  than one pair.
\<close>

theorem generate_round_robin_weeks_ok:
  assumes "distinct team_ids" and "2 \<le> length team_ids"
  shows "\<exists>sched. generate_round_robin team_ids weeks = Inr sched \<and>
           map fst sched = map str [1..weeks] \<and> schedule_ok sched"
proof -
  let ?teams = "bye_padded team_ids"
  let ?sched = "map (\<lambda>wk. (str wk, round_pairs ?teams (round_of (length ?teams) wk))) [1..weeks]"
  from assms(2) have ne: "team_ids \<noteq> []" by auto
  have gen: "generate_round_robin team_ids weeks = Inr ?sched"
    using ne by (rule generate_round_robin_eq)
  have ok: "week_ok (round_pairs ?teams r)" for r
    using distinct_bye_padded [OF assms(1)] even_length_bye_padded length_bye_padded [OF ne]
    by (rule week_ok_round_pairs)
  have "schedule_ok ?sched"
    by (simp add: schedule_ok_def list_all_iff ok)
  moreover have "map fst ?sched = map str [1..weeks]"
    by (simp add: comp_def)
  ultimately show ?thesis using gen by blast
qed

theorem generate_round_robin_weeks_ok_witness:
  "distinct [1, 2, 3 :: int] \<and> 2 \<le> length [1, 2, 3 :: int] \<and>
   generate_round_robin [1, 2, 3 :: int] 2 = Inr [(''1'', [[2, 3]]), (''2'', [[1, 3]])] \<and>
   schedule_ok [(''1'', [[2, 3 :: int]]), (''2'', [[1, 3]])]"
proof -
  have gen: "generate_round_robin [1, 2, 3 :: int] 2 = Inr [(''1'', [[2, 3]]), (''2'', [[1, 3]])]"
    by code_simp
  from generate_round_robin_weeks_ok [of "[1, 2, 3 :: int]" 2] gen show ?thesis by simp
qed

lemma lookup_week_generated:
  assumes "1 \<le> wk" "wk \<le> weeks"
  shows "lookup_week (map (\<lambda>wk. (str wk, f wk)) [1..weeks]) wk = Inr (f wk)"
proof -
  let ?sched = "map (\<lambda>wk. (str wk, f wk)) [1..weeks]"
  have "inj_on str (set [1..weeks])"
    by (rule inj_onI) (auto intro: str_inj)
  then have "distinct (map fst ?sched)"
    by (simp add: comp_def distinct_map)
  moreover have "(str wk, f wk) \<in> set ?sched" using assms by auto
  ultimately have "map_of ?sched (str wk) = Some (f wk)" by simp
  then show ?thesis by (simp add: lookup_week_def)
qed

lemma lookup_weeks_generated:
  "\<forall>wk \<in> set wks. 1 \<le> wk \<and> wk \<le> weeks \<Longrightarrow>
     lookup_weeks (map (\<lambda>wk. (str wk, f wk)) [1..weeks]) wks = Inr (map f wks)"
  by (induction wks) (simp_all add: lookup_week_generated)

lemma round_of_period: "round_of n (wk + (int n - 1)) = round_of n wk"
proof -
  have "wk + (int n - 1) - 1 = (wk - 1) + (int n - 1)" by simp
  then have "(wk + (int n - 1) - 1) mod (int n - 1) = (wk - 1) mod (int n - 1)"
    by (simp only: mod_add_self2)
  then show ?thesis by (simp only: round_of_def)
qed

lemma games_emit:
  "length (filter (plays a b) (emit x y)) = (if {x, y} = {Some a, Some b} then 1 else 0)"
  by (cases x; cases y) (auto simp add: emit_def plays_def doubleton_eq_iff)

lemma games_seats:
  "length (filter (plays a b) (concat (map (\<lambda>i. emit (f i) (g i)) idxs))) =
     count_list (map (\<lambda>i. {f i, g i}) idxs) {Some a, Some b}"
  by (induction idxs) (simp_all add: games_emit)

lemma games_round:
  "games_between (round_pairs teams r) a b = count_list (round_sets teams r) {Some a, Some b}"
  unfolding games_between_def round_pairs_def round_sets_def by (rule games_seats)

lemma games_rounds:
  "games_between (concat (map (\<lambda>wk. round_pairs teams (h wk)) wks)) a b =
     count_list (concat (map (\<lambda>wk. round_sets teams (h wk)) wks)) {Some a, Some b}"
proof (induction wks)
  case Nil
  show ?case by (simp add: games_between_def)
next
  case (Cons wk wks)
  then show ?case
    using games_round [of teams "h wk" a b] by (simp add: games_between_def)
qed

text \<open>
  C7. For a non-empty list of distinct team ids of even length \<open>n\<close>: the matchups of week
  \<open>wk\<close> and of week \<open>wk + (n - 1)\<close> are equal whenever both weeks are in the output, and
  among the pairs of any \<open>n - 1\<close> consecutive weeks of the output, every two different teams
  meet exactly once.
\<close>

theorem round_robin_even_cycle:
  assumes "distinct team_ids" and "even (length team_ids)" and "team_ids \<noteq> []"
  shows "\<exists>sched. generate_round_robin team_ids weeks = Inr sched \<and>
     (\<forall>wk. 1 \<le> wk \<and> wk + (int (length team_ids) - 1) \<le> weeks \<longrightarrow>
        (\<exists>ms. lookup_week sched wk = Inr ms \<and>
              lookup_week sched (wk + (int (length team_ids) - 1)) = Inr ms)) \<and>
     (\<forall>s a b. 1 \<le> s \<and> s + (int (length team_ids) - 1) - 1 \<le> weeks \<and>
          a \<in> set team_ids \<and> b \<in> set team_ids \<and> a \<noteq> b \<longrightarrow>
        (\<exists>mss. lookup_weeks sched [s..s + (int (length team_ids) - 1) - 1] = Inr mss \<and>
               games_between (concat mss) a b = 1))"
proof -
  let ?teams = "map Some team_ids"
  let ?n = "length team_ids"
  let ?f = "\<lambda>wk. round_pairs ?teams (round_of ?n wk)"
  let ?sched = "map (\<lambda>wk. (str wk, ?f wk)) [1..weeks]"
  have pad: "bye_padded team_ids = ?teams" using assms(2) by (simp add: bye_padded_def)
  have n2: "2 \<le> ?n" using length_bye_padded [OF assms(3)] by (simp add: pad)
  have d: "distinct ?teams" using assms(1) by (simp add: distinct_map)
  have gen: "generate_round_robin team_ids weeks = Inr ?sched"
    using generate_round_robin_eq [OF assms(3), of weeks] by (simp add: pad)
  have period: "\<exists>ms. lookup_week ?sched wk = Inr ms \<and>
      lookup_week ?sched (wk + (int ?n - 1)) = Inr ms"
    if "1 \<le> wk \<and> wk + (int ?n - 1) \<le> weeks" for wk
  proof -
    from that n2 have "1 \<le> wk" "wk \<le> weeks" "1 \<le> wk + (int ?n - 1)" by auto
    with that have "lookup_week ?sched wk = Inr (?f wk)"
      "lookup_week ?sched (wk + (int ?n - 1)) = Inr (?f (wk + (int ?n - 1)))"
      by (simp_all add: lookup_week_generated)
    then show ?thesis by (simp add: round_of_period)
  qed
  have once: "\<exists>mss. lookup_weeks ?sched [s..s + (int ?n - 1) - 1] = Inr mss \<and>
      games_between (concat mss) a b = 1"
    if "1 \<le> s \<and> s + (int ?n - 1) - 1 \<le> weeks \<and> a \<in> set team_ids \<and> b \<in> set team_ids \<and> a \<noteq> b"
    for s a b
  proof -
    have w: "[s..s + (int ?n - 1) - 1] = [s..s + int (length ?teams) - 2]" by simp
    have "\<forall>wk \<in> set [s..s + (int ?n - 1) - 1]. 1 \<le> wk \<and> wk \<le> weeks"
      using that by auto
    then have look: "lookup_weeks ?sched [s..s + (int ?n - 1) - 1] =
        Inr (map ?f [s..s + (int ?n - 1) - 1])"
      by (rule lookup_weeks_generated)
    have "games_between (concat (map ?f [s..s + (int ?n - 1) - 1])) a b =
        count_list (window_sets ?teams s) {Some a, Some b}"
      unfolding window_sets_def w
      using games_rounds [of ?teams "round_of ?n" "[s..s + int (length ?teams) - 2]" a b]
      by simp
    also have "\<dots> = 1"
      using d assms(2) n2 that by (intro count_window_sets) auto
    finally show ?thesis using look by blast
  qed
  from gen period once show ?thesis by blast
qed

theorem round_robin_even_cycle_witness:
  "distinct [1, 2, 3, 4 :: int] \<and> even (length [1, 2, 3, 4 :: int]) \<and> [1, 2, 3, 4 :: int] \<noteq> [] \<and>
   (\<exists>sched. generate_round_robin [1, 2, 3, 4 :: int] 6 = Inr sched \<and>
      (\<exists>ms. lookup_week sched 2 = Inr ms \<and> lookup_week sched 5 = Inr ms) \<and>
      (\<exists>mss. lookup_weeks sched [2..4] = Inr mss \<and> games_between (concat mss) 1 3 = 1))"
proof -
  from round_robin_even_cycle [of "[1, 2, 3, 4 :: int]" 6]
  obtain sched where gen: "generate_round_robin [1, 2, 3, 4 :: int] 6 = Inr sched"
    and period: "\<forall>wk. 1 \<le> wk \<and> wk + (int (length [1, 2, 3, 4 :: int]) - 1) \<le> 6 \<longrightarrow>
        (\<exists>ms. lookup_week sched wk = Inr ms \<and>
              lookup_week sched (wk + (int (length [1, 2, 3, 4 :: int]) - 1)) = Inr ms)"
    and once: "\<forall>s a b. 1 \<le> s \<and> s + (int (length [1, 2, 3, 4 :: int]) - 1) - 1 \<le> 6 \<and>
          a \<in> set [1, 2, 3, 4 :: int] \<and> b \<in> set [1, 2, 3, 4 :: int] \<and> a \<noteq> b \<longrightarrow>
        (\<exists>mss. lookup_weeks sched [s..s + (int (length [1, 2, 3, 4 :: int]) - 1) - 1] = Inr mss \<and>
               games_between (concat mss) a b = 1)"
    by auto
  from period [rule_format, of 2]
  have a: "\<exists>ms. lookup_week sched 2 = Inr ms \<and> lookup_week sched 5 = Inr ms" by simp
  from once [rule_format, of 2 1 3]
  have b: "\<exists>mss. lookup_weeks sched [2..4] = Inr mss \<and> games_between (concat mss) 1 3 = 1"
    by simp
  from gen a b show ?thesis by auto
qed

lemma emit_None: "None \<in> {x, y} \<Longrightarrow> emit x y = []"
  by (auto simp add: emit_def split: option.splits)

lemma emit_Some: "Some t \<in> {x, y} \<Longrightarrow> None \<notin> {x, y} \<Longrightarrow> t \<in> set (concat (emit x y))"
  by (cases x; cases y) (auto simp add: emit_def)

lemma in_round_pairs:
  "t \<in> set (concat (round_pairs teams r)) \<longleftrightarrow>
     (\<exists>i < length teams div 2.
        t \<in> set (concat (emit (teams ! seat (length teams) r i)
                               (teams ! seat (length teams) r (length teams - 1 - i)))))"
  by (auto simp add: round_pairs_def)

lemma in_round_sets:
  "S \<in> set (round_sets teams r) \<longleftrightarrow>
     (\<exists>i < length teams div 2.
        S = {teams ! seat (length teams) r i, teams ! seat (length teams) r (length teams - 1 - i)})"
  by (auto simp add: round_sets_def)

lemma bye_iff:
  assumes d: "distinct teams" and n: "even (length teams)" "2 \<le> length teams"
    and t: "Some t \<in> set teams"
  shows "has_bye (round_pairs teams r) t \<longleftrightarrow> {Some t, None} \<in> set (round_sets teams r)"
proof
  let ?n = "length teams"
  let ?x = "\<lambda>i. teams ! seat ?n r i" and ?y = "\<lambda>i. teams ! seat ?n r (?n - 1 - i)"
  assume bye: "has_bye (round_pairs teams r) t"
  from every_team_seated [OF n t, of r] obtain i where i: "i < ?n div 2"
    and seated: "Some t \<in> {?x i, ?y i}" by blast
  have "None \<in> {?x i, ?y i}"
  proof (rule ccontr)
    assume "None \<notin> {?x i, ?y i}"
    with seated have "t \<in> set (concat (emit (?x i) (?y i)))" by (rule emit_Some)
    with i have "t \<in> set (concat (round_pairs teams r))"
      unfolding in_round_pairs by blast
    with bye show False by (simp add: has_bye_def)
  qed
  with seated have "{Some t, None} = {?x i, ?y i}" by auto
  with i show "{Some t, None} \<in> set (round_sets teams r)"
    unfolding in_round_sets by blast
next
  let ?n = "length teams"
  let ?x = "\<lambda>i. teams ! seat ?n r i" and ?y = "\<lambda>i. teams ! seat ?n r (?n - 1 - i)"
  assume "{Some t, None} \<in> set (round_sets teams r)"
  then obtain i where i: "i < ?n div 2" and S: "{Some t, None} = {?x i, ?y i}"
    unfolding in_round_sets by blast
  from S have none: "None \<in> {?x i, ?y i}" and some: "Some t \<in> {?x i, ?y i}" by auto
  show "has_bye (round_pairs teams r) t"
    unfolding has_bye_def
  proof
    assume "t \<in> set (concat (round_pairs teams r))"
    then obtain j where j: "j < ?n div 2" and tj: "t \<in> set (concat (emit (?x j) (?y j)))"
      unfolding in_round_pairs by blast
    have "i = j"
      using d n i j some emit_elems [OF tj] by (rule round_seats_disjoint)
    with tj emit_None [OF none] show False by simp
  qed
qed

lemma week_one_bye:
  assumes d: "distinct team_ids" and o: "odd (length team_ids)"
  shows "length (filter (has_bye (round_pairs (bye_padded team_ids) r)) team_ids) = 1"
proof -
  let ?teams = "bye_padded team_ids"
  let ?n = "length ?teams"
  let ?x = "\<lambda>i. ?teams ! seat ?n r i" and ?y = "\<lambda>i. ?teams ! seat ?n r (?n - 1 - i)"
  from o have ne: "team_ids \<noteq> []" by auto
  have teams: "?teams = map Some team_ids @ [None]" using o by (simp add: bye_padded_def)
  have dt: "distinct ?teams" using d by (rule distinct_bye_padded)
  have n: "even ?n" "2 \<le> ?n"
    using even_length_bye_padded length_bye_padded [OF ne] by auto
  have "None \<in> set ?teams" by (simp add: teams)
  from every_team_seated [OF n this, of r] obtain i where i: "i < ?n div 2"
    and none: "None \<in> {?x i, ?y i}" by blast
  have Si: "{?x i, ?y i} \<in> set (round_sets ?teams r)"
    using i unfolding in_round_sets by blast
  from round_sets_two [OF dt n Si]
  have sub: "{?x i, ?y i} \<subseteq> set ?teams" and c2: "card {?x i, ?y i} = 2" by simp_all
  from c2 have neq: "?x i \<noteq> ?y i" by auto
  have "\<exists>z. {?x i, ?y i} = {z, None} \<and> z \<noteq> None"
  proof (cases "?x i = None")
    case True
    with neq have "{?x i, ?y i} = {?y i, None} \<and> ?y i \<noteq> None"
      by (auto simp add: insert_commute)
    then show ?thesis by blast
  next
    case False
    with none have "{?x i, ?y i} = {?x i, None}" by auto
    with False show ?thesis by blast
  qed
  then obtain z where z: "{?x i, ?y i} = {z, None}" "z \<noteq> None" by blast
  then obtain t0 where t0: "z = Some t0" by auto
  from sub z(1) t0 have t0_in: "t0 \<in> set team_ids" by (auto simp add: teams)
  have S0: "{Some t0, None} \<in> set (round_sets ?teams r)" using Si z(1) t0 by simp
  have mem: "Some t \<in> set ?teams" if "t \<in> set team_ids" for t
    using that by (simp add: teams)
  have iff: "has_bye (round_pairs ?teams r) t \<longleftrightarrow> t = t0" if t: "t \<in> set team_ids" for t
  proof
    assume "has_bye (round_pairs ?teams r) t"
    then have "{Some t, None} \<in> set (round_sets ?teams r)"
      using bye_iff [OF dt n mem [OF t], of r] by simp
    then obtain j where j: "j < ?n div 2" and Sj: "{Some t, None} = {?x j, ?y j}"
      unfolding in_round_sets by blast
    from Sj have "None \<in> {?x j, ?y j}" by auto
    with dt n i j none have "i = j" by (rule round_seats_disjoint)
    with Sj z(1) t0 have "{Some t, None} = {Some t0, None}" by simp
    then show "t = t0" by (auto simp add: doubleton_eq_iff)
  next
    assume "t = t0"
    with S0 show "has_bye (round_pairs ?teams r) t"
      using bye_iff [OF dt n mem [OF t0_in], of r] by simp
  qed
  have "{t. has_bye (round_pairs ?teams r) t} \<inter> set team_ids = {t0}"
    using iff t0_in by auto
  then show ?thesis using d by (simp add: distinct_length_filter)
qed

lemma bye_rounds:
  assumes d: "distinct teams" and n: "even (length teams)" "2 \<le> length teams"
    and t: "Some t \<in> set teams"
  shows "length (filter (\<lambda>ms. has_bye ms t) (map (\<lambda>wk. round_pairs teams (h wk)) wks)) =
     count_list (concat (map (\<lambda>wk. round_sets teams (h wk)) wks)) {Some t, None}"
proof (induction wks)
  case Nil
  show ?case by simp
next
  case (Cons wk wks)
  have "count_list (round_sets teams (h wk)) {Some t, None} =
      (if has_bye (round_pairs teams (h wk)) t then 1 else 0)"
    using distinct_round_sets [OF d n, of "h wk"] bye_iff [OF d n t, of "h wk"]
    by (simp add: count_distinct)
  with Cons show ?case by simp
qed

text \<open>
  C8. For a list of distinct team ids of odd length: in every week of the output the pairs
  are disjoint and exactly one input team appears in no pair, and over any
  \<open>length team_ids\<close> consecutive weeks of the output (a full cycle, one less than the
  padded team count) every team has exactly one such week.
\<close>

theorem round_robin_odd_byes:
  assumes "distinct team_ids" and "odd (length team_ids)"
  shows "\<exists>sched. generate_round_robin team_ids weeks = Inr sched \<and>
     (\<forall>wk. 1 \<le> wk \<and> wk \<le> weeks \<longrightarrow>
        (\<exists>ms. lookup_week sched wk = Inr ms \<and> week_ok ms \<and>
              length (filter (has_bye ms) team_ids) = 1)) \<and>
     (\<forall>s t. 1 \<le> s \<and> s + int (length team_ids) - 1 \<le> weeks \<and> t \<in> set team_ids \<longrightarrow>
        (\<exists>mss. lookup_weeks sched [s..s + int (length team_ids) - 1] = Inr mss \<and>
               length (filter (\<lambda>ms. has_bye ms t) mss) = 1))"
proof -
  let ?teams = "bye_padded team_ids"
  let ?n = "length ?teams"
  let ?f = "\<lambda>wk. round_pairs ?teams (round_of ?n wk)"
  let ?sched = "map (\<lambda>wk. (str wk, ?f wk)) [1..weeks]"
  from assms(2) have ne: "team_ids \<noteq> []" by auto
  have teams: "?teams = map Some team_ids @ [None]" using assms(2) by (simp add: bye_padded_def)
  have len: "int ?n = int (length team_ids) + 1" by (simp add: teams)
  have dt: "distinct ?teams" using assms(1) by (rule distinct_bye_padded)
  have n: "even ?n" "2 \<le> ?n"
    using even_length_bye_padded length_bye_padded [OF ne] by auto
  have gen: "generate_round_robin team_ids weeks = Inr ?sched"
    using ne by (rule generate_round_robin_eq)
  have week: "\<exists>ms. lookup_week ?sched wk = Inr ms \<and> week_ok ms \<and>
      length (filter (has_bye ms) team_ids) = 1"
    if "1 \<le> wk \<and> wk \<le> weeks" for wk
  proof -
    from that have "lookup_week ?sched wk = Inr (?f wk)"
      by (simp add: lookup_week_generated)
    moreover have "week_ok (?f wk)" using dt n by (rule week_ok_round_pairs)
    moreover have "length (filter (has_bye (?f wk)) team_ids) = 1"
      using assms by (rule week_one_bye)
    ultimately show ?thesis by blast
  qed
  have cycle: "\<exists>mss. lookup_weeks ?sched [s..s + int (length team_ids) - 1] = Inr mss \<and>
      length (filter (\<lambda>ms. has_bye ms t) mss) = 1"
    if "1 \<le> s \<and> s + int (length team_ids) - 1 \<le> weeks \<and> t \<in> set team_ids" for s t
  proof -
    let ?w = "[s..s + int (length team_ids) - 1]"
    have w: "?w = [s..s + int ?n - 2]" by (simp add: len)
    have "\<forall>wk \<in> set ?w. 1 \<le> wk \<and> wk \<le> weeks" using that by auto
    then have look: "lookup_weeks ?sched ?w = Inr (map ?f ?w)"
      by (rule lookup_weeks_generated)
    have mem: "Some t \<in> set ?teams" using that by (simp add: teams)
    have "length (filter (\<lambda>ms. has_bye ms t) (map ?f ?w)) =
        count_list (window_sets ?teams s) {Some t, None}"
      unfolding window_sets_def w
      using bye_rounds [OF dt n mem, of "round_of ?n" "[s..s + int ?n - 2]"] by simp
    also have "\<dots> = 1"
      using dt n mem by (intro count_window_sets) (simp_all add: teams)
    finally show ?thesis using look by blast
  qed
  from gen week cycle show ?thesis by blast
qed

theorem round_robin_odd_byes_witness:
  "distinct [1, 2, 3 :: int] \<and> odd (length [1, 2, 3 :: int]) \<and>
   (\<exists>sched. generate_round_robin [1, 2, 3 :: int] 4 = Inr sched \<and>
      (\<exists>ms. lookup_week sched 2 = Inr ms \<and> week_ok ms \<and>
            length (filter (has_bye ms) [1, 2, 3]) = 1) \<and>
      (\<exists>mss. lookup_weeks sched [2..4] = Inr mss \<and>
             length (filter (\<lambda>ms. has_bye ms 3) mss) = 1))"
proof -
  from round_robin_odd_byes [of "[1, 2, 3 :: int]" 4]
  obtain sched where gen: "generate_round_robin [1, 2, 3 :: int] 4 = Inr sched"
    and week: "\<forall>wk. 1 \<le> wk \<and> wk \<le> 4 \<longrightarrow>
        (\<exists>ms. lookup_week sched wk = Inr ms \<and> week_ok ms \<and>
              length (filter (has_bye ms) [1, 2, 3 :: int]) = 1)"
    and cycle: "\<forall>s t. 1 \<le> s \<and> s + int (length [1, 2, 3 :: int]) - 1 \<le> 4 \<and>
          t \<in> set [1, 2, 3 :: int] \<longrightarrow>
        (\<exists>mss. lookup_weeks sched [s..s + int (length [1, 2, 3 :: int]) - 1] = Inr mss \<and>
               length (filter (\<lambda>ms. has_bye ms t) mss) = 1)"
    by auto
  from week [rule_format, of 2]
  have a: "\<exists>ms. lookup_week sched 2 = Inr ms \<and> week_ok ms \<and>
      length (filter (has_bye ms) [1, 2, 3 :: int]) = 1" by simp
  from cycle [rule_format, of 2 3]
  have b: "\<exists>mss. lookup_weeks sched [2..4] = Inr mss \<and>
      length (filter (\<lambda>ms. has_bye ms 3) mss) = 1" by simp
  from gen a b show ?thesis by auto
qed

text \<open>
  C5. \<^verbatim>\<open>generate_round_robin([1,2,3,4], weeks=3)\<close> returns the schedule with week "1" =
  \<open>[[1,4],[2,3]]\<close>, week "2" = \<open>[[1,3],[4,2]]\<close> and week "3" = \<open>[[1,2],[3,4]]\<close>, in that
  order.
\<close>

theorem generate_round_robin_four_teams:
  "generate_round_robin [1, 2, 3, 4 :: int] 3 =
     Inr [(''1'', [[1, 4], [2, 3]]), (''2'', [[1, 3], [4, 2]]), (''3'', [[1, 2], [3, 4]])]"
  by code_simp

end
